theory Spec2Isabelle
  imports Complex_Main
begin

section \<open>Offline event ledger (device/database.py)\<close>

text \<open>
  Exceptions of the Python code are values. Only the class matters to the handlers
  (\<^verbatim>\<open>except Exception\<close>, \<^verbatim>\<open>except cv2.error\<close>, a bare \<^verbatim>\<open>except\<close>).
\<close>

datatype exn = CvError | IndexError | ValueError | TypeError | AttributeError | StorageError

text \<open>
  One row of the SQLite table \<^verbatim>\<open>local_attendance\<close>
  (\<^verbatim>\<open>id INTEGER PRIMARY KEY AUTOINCREMENT, timestamp REAL, device_id TEXT, name TEXT,
  synced INTEGER DEFAULT 0\<close>) and one row of the MySQL table \<^verbatim>\<open>attendance_log\<close>.
\<close>

record attendance =
  row_id :: nat
  row_timestamp :: real
  row_device_id :: string
  row_name :: string
  row_synced :: int

record mysql_row =
  log_timestamp :: string
  log_device_id :: string
  log_name :: string
  log_synced :: int

text \<open>
  The calls the code makes to the two stores, in the order it makes them.
  \<open>MysqlConnect\<close> is recorded for every attempt of \<^verbatim>\<open>mysql.connector.connect\<close>,
  whether it succeeds or not; the other events are recorded when the call returns.
\<close>

datatype event =
    SqliteInsert
  | SqliteSelect
  | MysqlConnect
  | MysqlExecute mysql_row
  | MysqlCommit
  | MysqlClose
  | SqliteUpdate "nat list"

text \<open>
  The two stores. \<open>local_attendance\<close> is the SQLite table in rowid order (the table's
  only b-tree), \<open>sqlite_sequence\<close> the AUTOINCREMENT high-water mark, \<open>attendance_log\<close>
  the committed rows of the central table.
\<close>

record world =
  local_attendance :: "attendance list"
  sqlite_sequence :: nat
  attendance_log :: "mysql_row list"
  events :: "event list"

text \<open>
  What is outside the program during one call: the clock, whether each store operation
  succeeds, and \<^verbatim>\<open>datetime.fromtimestamp(ts).strftime(...)\<close> (\<open>None\<close> when it raises).
\<close>

record outside =
  time_now :: real
  sqlite_insert_ok :: bool
  sqlite_select_ok :: bool
  mysql_connect_ok :: bool
  strftime :: "real \<Rightarrow> string option"
  mysql_execute_ok :: "mysql_row \<Rightarrow> bool"
  mysql_commit_ok :: bool
  sqlite_update_ok :: bool

text \<open>
  \<^verbatim>\<open>_init_sqlite\<close> on a device with no database file yet: the table is created empty;
  nothing has been sent to the central store.
\<close>

definition init_sqlite :: world where
  "init_sqlite =
     \<lparr>local_attendance = [], sqlite_sequence = 0, attendance_log = [], events = []\<rparr>"

text \<open>
  \<^verbatim>\<open>log_attendance\<close>: connect, INSERT with \<^verbatim>\<open>synced = 0\<close>, commit, close, return True;
  any exception is caught and gives False, with nothing committed.
\<close>

definition log_attendance :: "outside \<Rightarrow> string \<Rightarrow> string \<Rightarrow> world \<Rightarrow> bool \<times> world" where
  "log_attendance out dev nm w =
     (if sqlite_insert_ok out then
        (True,
         w\<lparr>local_attendance := local_attendance w @
              [\<lparr>row_id = Suc (sqlite_sequence w), row_timestamp = time_now out,
                row_device_id = dev, row_name = nm, row_synced = 0\<rparr>],
           sqlite_sequence := Suc (sqlite_sequence w),
           events := events w @ [SqliteInsert]\<rparr>)
      else (False, w))"

text \<open>
  Step 1 of \<^verbatim>\<open>sync_to_mysql\<close>:
  \<^verbatim>\<open>SELECT id, timestamp, device_id, name FROM local_attendance WHERE synced = 0 LIMIT 50\<close>.
  The query has no ORDER BY; SQLite answers it by scanning the table's rowid b-tree, so
  the rows come in rowid order. That scan order is what the list order stands for.
\<close>

definition select_unsynced :: "attendance list \<Rightarrow> attendance list" where
  "select_unsynced tbl = take 50 (filter (\<lambda>r. row_synced r = 0) tbl)"

text \<open>
  Step 3, the upload loop: format the timestamp, INSERT the row with \<^verbatim>\<open>synced = 1\<close>,
  remember the local id. The state is (rows inserted in the open transaction,
  \<^verbatim>\<open>synced_ids\<close>); an exception leaves the loop with the state reached so far.
\<close>

definition mysql_row_of :: "string \<Rightarrow> attendance \<Rightarrow> mysql_row" where
  "mysql_row_of dt r =
     \<lparr>log_timestamp = dt, log_device_id = row_device_id r, log_name = row_name r,
      log_synced = 1\<rparr>"

fun upload :: "outside \<Rightarrow> attendance list \<Rightarrow> mysql_row list \<times> nat list
    \<Rightarrow> exn option \<times> mysql_row list \<times> nat list" where
  "upload out [] (pending, synced_ids) = (None, pending, synced_ids)"
| "upload out (r # records) (pending, synced_ids) =
     (case strftime out (row_timestamp r) of
        None \<Rightarrow> (Some ValueError, pending, synced_ids)
      | Some dt \<Rightarrow>
          if mysql_execute_ok out (mysql_row_of dt r)
          then upload out records (pending @ [mysql_row_of dt r], synced_ids @ [row_id r])
          else (Some StorageError, pending, synced_ids))"

text \<open>
  Step 4: \<^verbatim>\<open>executemany("UPDATE local_attendance SET synced = 1 WHERE id = ?", ...)\<close>,
  one UPDATE per id, in the order of \<^verbatim>\<open>synced_ids\<close>.
\<close>

definition update_synced :: "nat \<Rightarrow> attendance list \<Rightarrow> attendance list" where
  "update_synced i tbl = map (\<lambda>r. if row_id r = i then r\<lparr>row_synced := 1\<rparr> else r) tbl"

definition executemany_update :: "nat list \<Rightarrow> attendance list \<Rightarrow> attendance list" where
  "executemany_update ids tbl = fold update_synced ids tbl"

definition log_event :: "event list \<Rightarrow> world \<Rightarrow> world" where
  "log_event evs w = w\<lparr>events := events w @ evs\<rparr>"

text \<open>
  \<^verbatim>\<open>sync_to_mysql\<close>. A failed read returns; an empty batch returns; a failed connect
  returns (bare \<^verbatim>\<open>except: return\<close>); an exception during the upload or the commit closes
  the connection without committing, so the open transaction is dropped; the local
  update runs after \<^verbatim>\<open>m_conn.commit()\<close> and \<^verbatim>\<open>m_conn.close()\<close>, and an exception there
  is caught by the same handler, the central rows staying committed.
\<close>

definition sync_to_mysql :: "outside \<Rightarrow> world \<Rightarrow> world" where
  "sync_to_mysql out w =
     (if \<not> sqlite_select_ok out then w
      else
        let records = select_unsynced (local_attendance w);
            w1 = log_event [SqliteSelect] w
        in if records = [] then w1
           else if \<not> mysql_connect_ok out then log_event [MysqlConnect] w1
           else
             (case upload out records ([], []) of
                (Some e, pending, synced_ids) \<Rightarrow>
                  log_event ([MysqlConnect] @ map MysqlExecute pending @ [MysqlClose]) w1
              | (None, pending, synced_ids) \<Rightarrow>
                  if \<not> mysql_commit_ok out
                  then log_event ([MysqlConnect] @ map MysqlExecute pending @ [MysqlClose]) w1
                  else
                    let w2 = log_event
                               ([MysqlConnect] @ map MysqlExecute pending @
                                [MysqlCommit, MysqlClose])
                               (w1\<lparr>attendance_log := attendance_log w1 @ pending\<rparr>)
                    in if synced_ids = [] then w2
                       else if \<not> sqlite_update_ok out then log_event [MysqlClose] w2
                       else log_event [SqliteUpdate synced_ids]
                              (w2\<lparr>local_attendance :=
                                    executemany_update synced_ids (local_attendance w2)\<rparr>)))"

subsection \<open>Notions used to state the ledger's properties\<close>

text \<open>
  The invariant of the local table: ids strictly increase along the table (PRIMARY KEY
  with AUTOINCREMENT, rows stored in rowid order) and none exceeds the high-water mark.
  \<open>executed\<close> reads the central INSERTs off an event list; \<open>formatted\<close> is the central
  row the upload loop builds for a local record, \<open>insert_succeeds\<close> says that building
  and inserting it raise nothing.
\<close>

definition ledger_inv :: "world \<Rightarrow> bool" where
  "ledger_inv w \<longleftrightarrow>
     sorted_wrt (<) (map row_id (local_attendance w)) \<and>
     list_all (\<lambda>r. row_id r \<le> sqlite_sequence w) (local_attendance w)"

fun executed :: "event list \<Rightarrow> mysql_row list" where
  "executed [] = []"
| "executed (MysqlExecute row # evs) = row # executed evs"
| "executed (e # evs) = executed evs"

definition formatted :: "outside \<Rightarrow> attendance \<Rightarrow> mysql_row option" where
  "formatted out r = map_option (\<lambda>dt. mysql_row_of dt r) (strftime out (row_timestamp r))"

definition insert_succeeds :: "outside \<Rightarrow> attendance \<Rightarrow> bool" where
  "insert_succeeds out r \<longleftrightarrow>
     (case formatted out r of None \<Rightarrow> False | Some row \<Rightarrow> mysql_execute_ok out row)"

text \<open>
  The scenario of the specification: the central store is unreachable (\<open>offline\<close>) or
  reachable (\<open>online\<close>); Alice then Bob are logged on device-A while offline.
\<close>

definition offline :: outside where
  "offline =
     \<lparr>time_now = 1000, sqlite_insert_ok = True, sqlite_select_ok = True,
      mysql_connect_ok = False, strftime = (\<lambda>t. Some ''1970-01-01 00:16:40''),
      mysql_execute_ok = (\<lambda>row. True), mysql_commit_ok = True, sqlite_update_ok = True\<rparr>"

definition online :: outside where
  "online = offline\<lparr>mysql_connect_ok := True\<rparr>"

definition alice_bob :: world where
  "alice_bob =
     snd (log_attendance offline ''device-A'' ''Bob''
       (snd (log_attendance offline ''device-A'' ''Alice'' init_sqlite)))"

section \<open>Geometric aligner (core/alignment.py)\<close>

text \<open>
  A float is finite or one of the three non-finite values; rounding is not modelled.
  A numpy array is its shape and its buffer; \<open>array_size\<close> is \<^verbatim>\<open>a.size\<close> and
  \<open>shape_at a i\<close> is \<^verbatim>\<open>a.shape[i]\<close>, which raises IndexError past the last axis.
\<close>

datatype fl = Finite real | PosInf | NegInf | NaN

fun isfinite :: "fl \<Rightarrow> bool" where
  "isfinite (Finite r) = True"
| "isfinite PosInf = False"
| "isfinite NegInf = False"
| "isfinite NaN = False"

record 'a ndarray =
  shape :: "nat list"
  buf :: "'a list"

type_synonym image = "nat ndarray"

definition array_size :: "'a ndarray \<Rightarrow> nat" where
  "array_size a = prod_list (shape a)"

definition shape_at :: "'a ndarray \<Rightarrow> nat \<Rightarrow> exn + nat" where
  "shape_at a i = (if i < length (shape a) then Inr (shape a ! i) else Inl IndexError)"

text \<open>
  \<^verbatim>\<open>np.array(landmarks, dtype=np.float32)\<close>: rows of different lengths raise ValueError;
  a finite value at or beyond \<open>2^128 - 2^103\<close> in magnitude becomes an infinity.
\<close>

definition float32 :: "fl \<Rightarrow> fl" where
  "float32 v =
     (case v of
        Finite r \<Rightarrow>
          if 2 ^ 128 - 2 ^ 103 \<le> r then PosInf
          else if r \<le> - (2 ^ 128 - 2 ^ 103) then NegInf
          else Finite r
      | PosInf \<Rightarrow> PosInf
      | NegInf \<Rightarrow> NegInf
      | NaN \<Rightarrow> NaN)"

definition np_array_float32 :: "fl list list \<Rightarrow> exn + fl list list" where
  "np_array_float32 rows =
     (case rows of
        [] \<Rightarrow> Inr []
      | r # rs \<Rightarrow>
          if list_all (\<lambda>r'. length r' = length r) rs
          then Inr (map (map float32) rows)
          else Inl ValueError)"

definition all_isfinite :: "fl list list \<Rightarrow> bool" where
  "all_isfinite m = list_all (list_all isfinite) m"

text \<open>
  The OpenCV functions the code calls are outside the repository: each is a parameter
  that raises (\<open>Inl\<close>) or returns, \<open>None\<close> included where the code tests for it.
\<close>

record cv2 =
  estimateAffinePartial2D :: "fl list list \<Rightarrow> real list list \<Rightarrow> exn + fl list list option"
  warpAffine :: "image \<Rightarrow> fl list list \<Rightarrow> nat \<times> nat \<Rightarrow> exn + image option"
  blobFromImage :: "image \<Rightarrow> exn + real ndarray option"
  normalize :: "real list \<Rightarrow> exn + real list"

record StandardFaceAligner =
  desiredFaceWidth :: nat
  desiredFaceHeight :: nat
  reference_pts :: "real list list"

definition aligner :: StandardFaceAligner where
  "aligner =
     \<lparr>desiredFaceWidth = 112, desiredFaceHeight = 112,
      reference_pts =
        [[382946 / 10000, 516963 / 10000],
         [735318 / 10000, 515014 / 10000],
         [560252 / 10000, 717366 / 10000],
         [415493 / 10000, 923655 / 10000],
         [707299 / 10000, 922041 / 10000]]\<rparr>"

text \<open>
  The body of \<^verbatim>\<open>align\<close> inside its \<^verbatim>\<open>try\<close>, check by check in the source's order, and
  \<^verbatim>\<open>align\<close> itself, whose \<^verbatim>\<open>except Exception\<close> turns every exception into None.
\<close>

definition align_try :: "cv2 \<Rightarrow> StandardFaceAligner \<Rightarrow> image option \<Rightarrow> fl list list option
    \<Rightarrow> exn + image option" where
  "align_try cv self im landmarks =
     (case im of
        None \<Rightarrow> Inr None
      | Some img \<Rightarrow>
     (case landmarks of
        None \<Rightarrow> Inr None
      | Some lms \<Rightarrow>
          if length lms \<noteq> 5 then Inr None
          else
     (case shape_at img 0 of
        Inl e \<Rightarrow> Inl e
      | Inr rows \<Rightarrow>
          if rows < 10 then Inr None
          else
     (case shape_at img 1 of
        Inl e \<Rightarrow> Inl e
      | Inr cols \<Rightarrow>
          if cols < 10 then Inr None
          else
     (case np_array_float32 lms of
        Inl e \<Rightarrow> Inl e
      | Inr lms32 \<Rightarrow>
          if \<not> all_isfinite lms32 then Inr None
          else
     (case estimateAffinePartial2D cv lms32 (reference_pts self) of
        Inl e \<Rightarrow> Inl e
      | Inr None \<Rightarrow> Inr None
      | Inr (Some tform) \<Rightarrow>
          if \<not> all_isfinite tform then Inr None
          else
     (case warpAffine cv img tform (desiredFaceWidth self, desiredFaceHeight self) of
        Inl e \<Rightarrow> Inl e
      | Inr None \<Rightarrow> Inr None
      | Inr (Some aligned_face) \<Rightarrow>
          if array_size aligned_face = 0 then Inr None
          else Inr (Some aligned_face))))))))"

definition align :: "cv2 \<Rightarrow> StandardFaceAligner \<Rightarrow> image option \<Rightarrow> fl list list option
    \<Rightarrow> image option" where
  "align cv self im landmarks =
     (case align_try cv self im landmarks of Inl e \<Rightarrow> None | Inr r \<Rightarrow> r)"

text \<open>The preconditions of \<^verbatim>\<open>align\<close>, as predicates on its two arguments.\<close>

definition image_too_small :: "image \<Rightarrow> bool" where
  "image_too_small img \<longleftrightarrow>
     list_ex (\<lambda>d. d < 10) (take 2 (shape img)) \<or> length (shape img) < 2"

text \<open>
  The documented contract of \<^verbatim>\<open>cv2.warpAffine\<close>: the output has the size \<^verbatim>\<open>dsize\<close>
  (width, height) and the type of the source, so its trailing axes (the channels) are
  those of the source.
\<close>

definition warpAffine_keeps_type :: "cv2 \<Rightarrow> bool" where
  "warpAffine_keeps_type cv \<longleftrightarrow>
     (\<forall>img tform dsize out.
        warpAffine cv img tform dsize = Inr (Some out) \<longrightarrow>
        shape out = [snd dsize, fst dsize] @ drop 2 (shape img))"

definition has_nonfinite :: "fl list list \<Rightarrow> bool" where
  "has_nonfinite lms \<longleftrightarrow> list_ex (list_ex (\<lambda>v. \<not> isfinite v)) lms"

text \<open>
  Values for concrete runs: OpenCV functions that always succeed (an identity transform,
  an output of the requested size with the channels of the source, a blob, the embedding
  unchanged), a 200 by 200 colour frame, and landmarks close to the reference layout.
\<close>

definition cv_identity :: cv2 where
  "cv_identity =
     \<lparr>estimateAffinePartial2D = (\<lambda>src dst. Inr (Some [[Finite 1, Finite 0, Finite 0],
                                                        [Finite 0, Finite 1, Finite 0]])),
      warpAffine = (\<lambda>img tform dsize.
        Inr (Some \<lparr>shape = [snd dsize, fst dsize] @ drop 2 (shape img), buf = []\<rparr>)),
      blobFromImage = (\<lambda>img. Inr (Some \<lparr>shape = [1, 3, 112, 112], buf = []\<rparr>)),
      normalize = (\<lambda>v. Inr v)\<rparr>"

definition frame_200 :: image where
  "frame_200 = \<lparr>shape = [200, 200, 3], buf = []\<rparr>"

definition landmarks_ok :: "fl list list" where
  "landmarks_ok =
     [[Finite 38, Finite 52], [Finite 74, Finite 51], [Finite 56, Finite 72],
      [Finite 42, Finite 92], [Finite 71, Finite 92]]"

section \<open>Recognizer (core/recognizer.py)\<close>

text \<open>
  The detector object returns, for a frame, the detected faces (one row of floats per
  face: box, ten landmark coordinates, score), None, or raises. The network object
  (\<^verbatim>\<open>setInput\<close> then \<^verbatim>\<open>forward\<close>) returns the embedding as a row vector, None, or
  raises. The gallery is an \<open>N \<times> D\<close> array, one row per identity, with its names.
\<close>

type_synonym FaceDetectorYN = "image \<Rightarrow> exn + fl list list option"
type_synonym Net = "real ndarray \<Rightarrow> exn + real list option"

record FaceRecognizer =
  detector :: "FaceDetectorYN option"
  recognizer :: "Net option"
  known_embeddings :: "real list list"
  known_names :: "string list"

text \<open>
  The files the constructor and \<^verbatim>\<open>reload\<close> look at: whether each path exists, and what
  creating the two models and reading the two gallery artifacts gives (\<open>Inl\<close> when the
  call raises).
\<close>

record assets =
  yunet_exists :: bool
  mobilefacenet_exists :: bool
  embeddings_exists :: bool
  names_exists :: bool
  FaceDetectorYN_create :: "exn + FaceDetectorYN"
  readNetFromONNX :: "exn + Net"
  np_load :: "exn + real list list"
  json_load :: "exn + string list"

definition RECOGNITION_THRESHOLD :: real where
  "RECOGNITION_THRESHOLD = 70 / 100"

definition load_models :: "assets \<Rightarrow> FaceRecognizer \<Rightarrow> exn + FaceRecognizer" where
  "load_models a self =
     (if \<not> yunet_exists a \<or> \<not> mobilefacenet_exists a then Inr self
      else
        (case FaceDetectorYN_create a of
           Inl e \<Rightarrow> Inl e
         | Inr d \<Rightarrow>
             (case readNetFromONNX a of
                Inl e \<Rightarrow> Inl e
              | Inr n \<Rightarrow> Inr (self\<lparr>detector := Some d, recognizer := Some n\<rparr>))))"

definition load_database :: "assets \<Rightarrow> FaceRecognizer \<Rightarrow> FaceRecognizer" where
  "load_database a self =
     (if embeddings_exists a \<and> names_exists a then
        (case np_load a of
           Inl e \<Rightarrow> self\<lparr>known_embeddings := [], known_names := []\<rparr>
         | Inr embs \<Rightarrow>
             (case json_load a of
                Inl e \<Rightarrow> self\<lparr>known_embeddings := [], known_names := []\<rparr>
              | Inr names \<Rightarrow> self\<lparr>known_embeddings := embs, known_names := names\<rparr>))
      else self)"

definition FaceRecognizer_init :: "assets \<Rightarrow> exn + FaceRecognizer" where
  "FaceRecognizer_init a =
     (case load_models a
             \<lparr>detector = None, recognizer = None, known_embeddings = [], known_names = []\<rparr> of
        Inl e \<Rightarrow> Inl e
      | Inr self \<Rightarrow> Inr (load_database a self))"

text \<open>
  \<^verbatim>\<open>reload\<close>: both artifacts are read into temporaries; the two attributes are assigned
  only after both reads returned; any exception, or a missing file, gives False.
\<close>

definition reload :: "assets \<Rightarrow> FaceRecognizer \<Rightarrow> bool \<times> FaceRecognizer" where
  "reload a self =
     (if embeddings_exists a \<and> names_exists a then
        (case np_load a of
           Inl e \<Rightarrow> (False, self)
         | Inr new_embeddings \<Rightarrow>
             (case json_load a of
                Inl e \<Rightarrow> (False, self)
              | Inr new_names \<Rightarrow>
                  (True, self\<lparr>known_embeddings := new_embeddings, known_names := new_names\<rparr>)))
      else (False, self))"

text \<open>
  \<^verbatim>\<open>face[:4].astype(int)\<close> truncates towards zero (a non-finite value gives the least
  64-bit integer); reading a component of a box with fewer than four raises IndexError.
  \<^verbatim>\<open>face[4:14].reshape((5, 2))\<close> raises ValueError unless the slice has ten values.
\<close>

definition astype_int :: "fl \<Rightarrow> int" where
  "astype_int v =
     (case v of
        Finite r \<Rightarrow> if r < 0 then \<lceil>r\<rceil> else \<lfloor>r\<rfloor>
      | PosInf \<Rightarrow> - (2 ^ 63)
      | NegInf \<Rightarrow> - (2 ^ 63)
      | NaN \<Rightarrow> - (2 ^ 63))"

type_synonym box = "int \<times> int \<times> int \<times> int"

definition face_box :: "fl list \<Rightarrow> exn + box" where
  "face_box face =
     (let box = map astype_int (take 4 face)
      in if length box < 4 then Inl IndexError
         else Inr (box ! 0, box ! 1, box ! 2, box ! 3))"

definition face_landmarks :: "fl list \<Rightarrow> exn + fl list list" where
  "face_landmarks face =
     (let flat = take 10 (drop 4 face)
      in if length flat \<noteq> 10 then Inl ValueError
         else Inr [[flat ! 0, flat ! 1], [flat ! 2, flat ! 3], [flat ! 4, flat ! 5],
                   [flat ! 6, flat ! 7], [flat ! 8, flat ! 9]])"

text \<open>
  The comparison with the gallery. \<^verbatim>\<open>np.dot(known_embeddings, embedding_norm.T)\<close> raises
  ValueError when the row length of the gallery differs from the length of the query;
  \<^verbatim>\<open>np.argmax\<close> returns the first index of the greatest score; \<^verbatim>\<open>known_names[i]\<close> raises
  IndexError past the end of the list. Scores are real numbers (NaN is not modelled).
\<close>

definition dot :: "real list \<Rightarrow> real list \<Rightarrow> real" where
  "dot u v = sum_list (map2 (*) u v)"

definition np_dot :: "real list list \<Rightarrow> real list \<Rightarrow> exn + real list" where
  "np_dot m v =
     (if list_all (\<lambda>row. length row = length v) m then Inr (map (\<lambda>row. dot row v) m)
      else Inl ValueError)"

fun argmax_scan :: "real list \<Rightarrow> nat \<Rightarrow> nat \<Rightarrow> real \<Rightarrow> nat" where
  "argmax_scan [] i best m = best"
| "argmax_scan (x # xs) i best m =
     (if m < x then argmax_scan xs (Suc i) i x else argmax_scan xs (Suc i) best m)"

definition np_argmax :: "real list \<Rightarrow> exn + nat" where
  "np_argmax xs = (case xs of [] \<Rightarrow> Inl ValueError | x # rest \<Rightarrow> Inr (argmax_scan rest 1 0 x))"

definition compare_with_known :: "FaceRecognizer \<Rightarrow> real list \<Rightarrow> exn + string" where
  "compare_with_known self embedding_norm =
     (if length (known_embeddings self) > 0 then
        (case np_dot (known_embeddings self) embedding_norm of
           Inl e \<Rightarrow> Inl e
         | Inr scores \<Rightarrow>
             (case np_argmax scores of
                Inl e \<Rightarrow> Inl e
              | Inr best_match_idx \<Rightarrow>
                  if scores ! best_match_idx > RECOGNITION_THRESHOLD then
                    (if best_match_idx < length (known_names self)
                     then Inr (known_names self ! best_match_idx)
                     else Inl IndexError)
                  else Inr ''Unknown''))
      else Inr ''Unknown'')"

text \<open>
  The matcher as the per-face code runs it: the comparison sits inside the \<^verbatim>\<open>try\<close> whose
  handlers leave the name at its initial value.
\<close>

definition match_name :: "FaceRecognizer \<Rightarrow> real list \<Rightarrow> string" where
  "match_name self embedding_norm =
     (case compare_with_known self embedding_norm of Inl e \<Rightarrow> ''Unknown'' | Inr name \<Rightarrow> name)"

text \<open>
  The inner \<^verbatim>\<open>try\<close> block of the per-face loop. It ends by falling through with a name,
  by \<^verbatim>\<open>continue\<close> after appending "Unknown" itself, or by raising; the list of names
  is threaded through. The block is cut at the aligned face, at the blob and at the
  embedding: \<open>recognition_try\<close> is the whole block.
\<close>

datatype flow = Fallthrough string | Continue | Raise exn

definition shape_not_112 :: "image \<Rightarrow> exn + bool" where
  "shape_not_112 face_img =
     (case shape_at face_img 0 of
        Inl e \<Rightarrow> Inl e
      | Inr rows \<Rightarrow>
          if rows \<noteq> 112 then Inr True
          else (case shape_at face_img 1 of Inl e \<Rightarrow> Inl e | Inr cols \<Rightarrow> Inr (cols \<noteq> 112)))"

definition embedding_match :: "cv2 \<Rightarrow> FaceRecognizer \<Rightarrow> real list \<Rightarrow> string list
    \<Rightarrow> flow \<times> string list" where
  "embedding_match cv self embedding face_names =
     (if length embedding = 0 then (Continue, face_names @ [''Unknown''])
      else
        (case normalize cv embedding of
           Inl e \<Rightarrow> (Raise e, face_names)
         | Inr embedding_norm \<Rightarrow>
             (case compare_with_known self embedding_norm of
                Inl e \<Rightarrow> (Raise e, face_names)
              | Inr name \<Rightarrow> (Fallthrough name, face_names))))"

definition blob_embedding :: "cv2 \<Rightarrow> FaceRecognizer \<Rightarrow> real ndarray \<Rightarrow> string list
    \<Rightarrow> flow \<times> string list" where
  "blob_embedding cv self blob face_names =
     (if array_size blob = 0 then (Continue, face_names @ [''Unknown''])
      else
        (case recognizer self of
           None \<Rightarrow> (Raise AttributeError, face_names)
         | Some net \<Rightarrow>
             (case net blob of
                Inl e \<Rightarrow> (Raise e, face_names)
              | Inr None \<Rightarrow> (Continue, face_names @ [''Unknown''])
              | Inr (Some embedding) \<Rightarrow> embedding_match cv self embedding face_names)))"

definition aligned_face_embedding :: "cv2 \<Rightarrow> FaceRecognizer \<Rightarrow> image \<Rightarrow> string list
    \<Rightarrow> flow \<times> string list" where
  "aligned_face_embedding cv self face_img face_names =
     (case shape_not_112 face_img of
        Inl e \<Rightarrow> (Raise e, face_names)
      | Inr invalid \<Rightarrow>
          if invalid then (Continue, face_names @ [''Unknown''])
          else
            (case blobFromImage cv face_img of
               Inl e \<Rightarrow> (Raise e, face_names)
             | Inr None \<Rightarrow> (Continue, face_names @ [''Unknown''])
             | Inr (Some blob) \<Rightarrow> blob_embedding cv self blob face_names))"

definition recognition_try :: "cv2 \<Rightarrow> StandardFaceAligner \<Rightarrow> FaceRecognizer \<Rightarrow> image
    \<Rightarrow> fl list list \<Rightarrow> string list \<Rightarrow> flow \<times> string list" where
  "recognition_try cv al self frame landmarks face_names =
     (case align cv al (Some frame) (Some landmarks) of
        None \<Rightarrow> (Fallthrough ''Unknown'', face_names)
      | Some face_img \<Rightarrow>
          if \<not> array_size face_img > 0 then (Fallthrough ''Unknown'', face_names)
          else aligned_face_embedding cv self face_img face_names)"

text \<open>
  One iteration of \<^verbatim>\<open>for face in faces\<close> on the two result lists. An exception before
  the location is appended is caught by the outer handler of the iteration, which
  continues; after the location is appended the name is appended on every path.
\<close>

definition process_face :: "cv2 \<Rightarrow> StandardFaceAligner option \<Rightarrow> FaceRecognizer \<Rightarrow> image
    \<Rightarrow> fl list \<Rightarrow> box list \<times> string list \<Rightarrow> box list \<times> string list" where
  "process_face cv al self frame face acc =
     (case acc of (face_locations, face_names) \<Rightarrow>
     (case face_box face of
        Inl e \<Rightarrow> (face_locations, face_names)
      | Inr (x, y, w_box, h_box) \<Rightarrow>
          if w_box \<le> 0 \<or> h_box \<le> 0 then (face_locations, face_names)
          else
     (case face_landmarks face of
        Inl e \<Rightarrow> (face_locations, face_names)
      | Inr landmarks \<Rightarrow>
     (case al of
        None \<Rightarrow> (face_locations @ [(x, y, w_box, h_box)], face_names @ [''Unknown''])
      | Some a \<Rightarrow>
     (case recognition_try cv a self frame landmarks face_names of
        (Continue, names') \<Rightarrow> (face_locations @ [(x, y, w_box, h_box)], names')
      | (Fallthrough name, names') \<Rightarrow>
          (face_locations @ [(x, y, w_box, h_box)], names' @ [name])
      | (Raise e, names') \<Rightarrow>
          (face_locations @ [(x, y, w_box, h_box)], names' @ [''Unknown'']))))))"

text \<open>
  \<^verbatim>\<open>recognize_faces\<close>: the guards of the frame, the detector call, the loop. Every
  exception outside the loop is caught by the outermost handler, which returns two
  empty lists.
\<close>

definition recognize_faces :: "cv2 \<Rightarrow> StandardFaceAligner option \<Rightarrow> FaceRecognizer
    \<Rightarrow> image option \<Rightarrow> box list \<times> string list" where
  "recognize_faces cv al self frame =
     (case frame of
        None \<Rightarrow> ([], [])
      | Some fr \<Rightarrow>
          if array_size fr = 0 then ([], [])
          else
     (case detector self of
        None \<Rightarrow> ([], [])
      | Some det \<Rightarrow>
     (case recognizer self of
        None \<Rightarrow> ([], [])
      | Some net \<Rightarrow>
     (case shape fr of
        h # w # rest \<Rightarrow>
          if h < 10 \<or> w < 10 then ([], [])
          else
            (case det fr of
               Inl e \<Rightarrow> ([], [])
             | Inr None \<Rightarrow> ([], [])
             | Inr (Some faces) \<Rightarrow>
                 if length faces > 0 then fold (process_face cv al self fr) faces ([], [])
                 else ([], []))
      | _ \<Rightarrow> ([], [])))))"


definition no_models :: assets where
  "no_models =
     \<lparr>yunet_exists = False, mobilefacenet_exists = True,
      embeddings_exists = True, names_exists = True,
      FaceDetectorYN_create = Inl CvError, readNetFromONNX = Inl CvError,
      np_load = Inr [[1, 0], [0, 1]], json_load = Inr [''Alice'', ''Bob'']\<rparr>"

definition reloads :: "assets list \<Rightarrow> FaceRecognizer \<Rightarrow> FaceRecognizer" where
  "reloads as self = fold (\<lambda>a s. snd (reload a s)) as self"






text \<open>
  A step on the list of names threads it when it only appends to it, the same suffix
  whatever the list, and the suffix is "Unknown" exactly when the step ends by
  \<^verbatim>\<open>continue\<close>.
\<close>

definition threads :: "(string list \<Rightarrow> flow \<times> string list) \<Rightarrow> bool" where
  "threads f \<longleftrightarrow>
     (\<forall>names. f names = (fst (f []), names @ snd (f []))) \<and>
     (case fst (f []) of
        Continue \<Rightarrow> snd (f []) = [''Unknown'']
      | Fallthrough name \<Rightarrow> snd (f []) = []
      | Raise e \<Rightarrow> snd (f []) = [])"

section \<open>Properties of the ledger\<close>

lemma executed_append: "executed (xs @ ys) = executed xs @ executed ys"
  by (induction xs rule: executed.induct) auto

lemma executed_map: "executed (map MysqlExecute rows) = rows"
  by (induction rows) auto

lemma ledger_inv_init: "ledger_inv init_sqlite"
  by (simp add: ledger_inv_def init_sqlite_def)

lemma ledger_inv_log: "ledger_inv w \<Longrightarrow> ledger_inv (snd (log_attendance out dev nm w))"
  by (auto simp: ledger_inv_def log_attendance_def sorted_wrt_append list_all_iff)

lemma map_row_id_update: "map row_id (update_synced i tbl) = map row_id tbl"
  by (induction tbl) (auto simp: update_synced_def)

lemma map_row_id_executemany: "map row_id (executemany_update ids tbl) = map row_id tbl"
  unfolding executemany_update_def
  by (induction ids arbitrary: tbl) (auto simp: map_row_id_update)

lemma executemany_update_eq:
  "executemany_update ids tbl =
     map (\<lambda>r. if row_id r \<in> set ids then r\<lparr>row_synced := 1\<rparr> else r) tbl"
  unfolding executemany_update_def
proof (induction ids arbitrary: tbl)
  case Nil
  then show ?case by (simp add: map_idI)
next
  case (Cons i ids)
  have "fold update_synced (i # ids) tbl = fold update_synced ids (update_synced i tbl)"
    by simp
  also have "\<dots> = map (\<lambda>r. if row_id r \<in> set ids then r\<lparr>row_synced := 1\<rparr> else r)
                     (update_synced i tbl)"
    by (rule Cons.IH)
  also have "\<dots> = map (\<lambda>r. if row_id r \<in> set (i # ids) then r\<lparr>row_synced := 1\<rparr> else r) tbl"
    by (auto simp: update_synced_def)
  finally show ?case .
qed

lemma upload_prefix:
  "upload out rs (pending, ids) = (e, pending', ids') \<Longrightarrow>
   \<exists>k\<le>length rs.
     map Some pending' = map Some pending @ map (formatted out) (take k rs) \<and>
     ids' = ids @ map row_id (take k rs) \<and>
     (e = None \<longrightarrow> k = length rs)"
proof (induction rs arbitrary: pending ids)
  case Nil
  then show ?case by simp
next
  case (Cons r rs)
  show ?case
  proof (cases "strftime out (row_timestamp r)")
    case None
    with Cons.prems show ?thesis by (intro exI[of _ 0]) auto
  next
    case (Some dt)
    show ?thesis
    proof (cases "mysql_execute_ok out (mysql_row_of dt r)")
      case False
      with Some Cons.prems show ?thesis by (intro exI[of _ 0]) auto
    next
      case True
      with Some Cons.prems
      have "upload out rs (pending @ [mysql_row_of dt r], ids @ [row_id r]) = (e, pending', ids')"
        by simp
      from Cons.IH[OF this] obtain k where k: "k \<le> length rs"
        "map Some pending' = map Some (pending @ [mysql_row_of dt r]) @ map (formatted out) (take k rs)"
        "ids' = (ids @ [row_id r]) @ map row_id (take k rs)"
        "e = None \<longrightarrow> k = length rs" by blast
      show ?thesis
        using k Some by (intro exI[of _ "Suc k"]) (simp add: formatted_def)
    qed
  qed
qed

lemma upload_all:
  "list_all (insert_succeeds out) rs \<Longrightarrow>
   \<exists>pending'. upload out rs (pending, ids) = (None, pending', ids @ map row_id rs) \<and>
     map Some pending' = map Some pending @ map (formatted out) rs"
proof (induction rs arbitrary: pending ids)
  case Nil
  then show ?case by simp
next
  case (Cons r rs)
  from Cons.prems have hd: "insert_succeeds out r" and rest: "list_all (insert_succeeds out) rs"
    by simp_all
  from hd obtain dt where dt: "strftime out (row_timestamp r) = Some dt"
    "mysql_execute_ok out (mysql_row_of dt r)"
    by (auto simp: insert_succeeds_def formatted_def split: option.splits)
  from Cons.IH[OF rest, of "pending @ [mysql_row_of dt r]" "ids @ [row_id r]"]
  show ?case using dt by (auto simp: formatted_def)
qed

lemma select_unsynced_props:
  assumes "sorted_wrt (<) (map row_id tbl)"
  shows "length (select_unsynced tbl) \<le> 50"
    and "length (select_unsynced tbl) = min 50 (length (filter (\<lambda>r. row_synced r = 0) tbl))"
    and "list_all (\<lambda>r. row_synced r = 0) (select_unsynced tbl)"
    and "set (select_unsynced tbl) \<subseteq> set tbl"
    and "sorted_wrt (<) (map row_id (select_unsynced tbl))"
    and "\<forall>r\<in>set tbl. row_synced r = 0 \<and> r \<notin> set (select_unsynced tbl) \<longrightarrow>
           (\<forall>b\<in>set (select_unsynced tbl). row_id b < row_id r)"
proof -
  let ?xs = "filter (\<lambda>r. row_synced r = 0) tbl"
  have sorted_xs: "sorted_wrt (\<lambda>a b. row_id a < row_id b) ?xs"
    using assms by (simp add: sorted_wrt_map sorted_wrt_filter)
  show "length (select_unsynced tbl) \<le> 50"
    by (simp add: select_unsynced_def)
  show "length (select_unsynced tbl) = min 50 (length ?xs)"
    by (simp add: select_unsynced_def min.commute)
  show "list_all (\<lambda>r. row_synced r = 0) (select_unsynced tbl)"
    by (auto simp: select_unsynced_def list_all_iff dest: in_set_takeD)
  show "set (select_unsynced tbl) \<subseteq> set tbl"
    by (auto simp: select_unsynced_def dest: in_set_takeD)
  have split: "?xs = take 50 ?xs @ drop 50 ?xs" by simp
  have sorted_split: "sorted_wrt (\<lambda>a b. row_id a < row_id b) (take 50 ?xs @ drop 50 ?xs)"
    using sorted_xs by simp
  then show "sorted_wrt (<) (map row_id (select_unsynced tbl))"
    by (simp add: select_unsynced_def sorted_wrt_map sorted_wrt_append del: append_take_drop_id)
  show "\<forall>r\<in>set tbl. row_synced r = 0 \<and> r \<notin> set (select_unsynced tbl) \<longrightarrow>
           (\<forall>b\<in>set (select_unsynced tbl). row_id b < row_id r)"
  proof (intro ballI impI)
    fix r b
    assume r: "r \<in> set tbl" "row_synced r = 0 \<and> r \<notin> set (select_unsynced tbl)"
      and b: "b \<in> set (select_unsynced tbl)"
    from r have "r \<in> set ?xs" by simp
    then have "r \<in> set (take 50 ?xs) \<union> set (drop 50 ?xs)"
      by (metis set_append split)
    with r have "r \<in> set (drop 50 ?xs)" by (simp add: select_unsynced_def)
    moreover from b have "b \<in> set (take 50 ?xs)" by (simp add: select_unsynced_def)
    ultimately show "row_id b < row_id r"
      using sorted_split by (simp add: sorted_wrt_append del: append_take_drop_id)
  qed
qed

lemma sync_events_executed:
  assumes "sqlite_select_ok out"
  shows "\<exists>k evs. events (sync_to_mysql out w) = events w @ evs \<and>
     k \<le> length (select_unsynced (local_attendance w)) \<and>
     map Some (executed evs) = map (formatted out) (take k (select_unsynced (local_attendance w))) \<and>
     (attendance_log (sync_to_mysql out w) = attendance_log w \<or>
      attendance_log (sync_to_mysql out w) = attendance_log w @ executed evs \<and>
      k = length (select_unsynced (local_attendance w))) \<and>
     (mysql_connect_ok out \<and> mysql_commit_ok out \<and>
      list_all (insert_succeeds out) (select_unsynced (local_attendance w)) \<longrightarrow>
      attendance_log (sync_to_mysql out w) = attendance_log w @ executed evs \<and>
      k = length (select_unsynced (local_attendance w)))"
proof -
  let ?batch = "select_unsynced (local_attendance w)"
  obtain e pending ids where up: "upload out ?batch ([], []) = (e, pending, ids)"
    by (metis prod_cases3)
  from upload_prefix[OF up] obtain k where k: "k \<le> length ?batch"
    "map Some pending = map (formatted out) (take k ?batch)" "e = None \<longrightarrow> k = length ?batch"
    by auto
  have all: "list_all (insert_succeeds out) ?batch \<Longrightarrow> e = None"
    using upload_all[of out ?batch "[]" "[]"] up by auto
  show ?thesis
  proof (cases "?batch = []")
    case True
    then show ?thesis using assms
      by (intro exI[of _ 0] exI[of _ "[SqliteSelect]"]) (simp add: sync_to_mysql_def log_event_def)
  next
    case False
    show ?thesis
    proof (cases "mysql_connect_ok out")
      case off: False
      then show ?thesis using assms False
        by (intro exI[of _ 0] exI[of _ "[SqliteSelect, MysqlConnect]"])
           (simp add: sync_to_mysql_def log_event_def)
    next
      case on: True
      show ?thesis
      proof (cases e)
        case (Some x)
        then show ?thesis using assms False on up k all
          by (intro exI[of _ k]
                exI[of _ "[SqliteSelect, MysqlConnect] @ map MysqlExecute pending @ [MysqlClose]"])
             (auto simp: sync_to_mysql_def log_event_def executed_append executed_map)
      next
        case None
        then have kk: "k = length ?batch" using k by simp
        show ?thesis
        proof (cases "mysql_commit_ok out")
          case nc: False
          then show ?thesis using assms False on up k None
            by (intro exI[of _ k]
                exI[of _ "[SqliteSelect, MysqlConnect] @ map MysqlExecute pending @ [MysqlClose]"])
             (auto simp: sync_to_mysql_def log_event_def executed_append executed_map)
        next
          case cm: True
          show ?thesis
          proof (cases "ids = []")
            case True
            then show ?thesis using assms False on up k None cm kk
              by (intro exI[of _ k]
                exI[of _ "[SqliteSelect, MysqlConnect] @ map MysqlExecute pending @
                          [MysqlCommit, MysqlClose]"])
                 (auto simp: sync_to_mysql_def log_event_def executed_append executed_map Let_def)
          next
            case ne: False
            show ?thesis
            proof (cases "sqlite_update_ok out")
              case True
              then show ?thesis using assms False on up k None cm kk ne
                by (intro exI[of _ k]
                  exI[of _ "[SqliteSelect, MysqlConnect] @ map MysqlExecute pending @
                            [MysqlCommit, MysqlClose, SqliteUpdate ids]"])
                 (auto simp: sync_to_mysql_def log_event_def executed_append executed_map Let_def)
            next
              case False
              then show ?thesis using assms \<open>?batch \<noteq> []\<close> on up k None cm kk ne
                by (intro exI[of _ k]
                  exI[of _ "[SqliteSelect, MysqlConnect] @ map MysqlExecute pending @
                            [MysqlCommit, MysqlClose, MysqlClose]"])
                 (auto simp: sync_to_mysql_def log_event_def executed_append executed_map Let_def)
            qed
          qed
        qed
      qed
    qed
  qed
qed

lemma count_marked:
  "length (filter (\<lambda>r. row_synced r = 1)
      (map (\<lambda>r. if row_synced r = 0 then r\<lparr>row_synced := 1\<rparr> else r) tbl)) =
   length (filter (\<lambda>r. row_synced r = 1) tbl) + length (filter (\<lambda>r. row_synced r = 0) tbl)"
  by (induction tbl) auto

lemma ids_of_unsynced:
  assumes "sorted_wrt (<) (map row_id tbl)" and "r \<in> set tbl"
  shows "row_id r \<in> row_id ` {x \<in> set tbl. row_synced x = 0} \<longleftrightarrow> row_synced r = 0"
proof -
  have "distinct (map row_id tbl)"
    using assms(1) by (simp add: strict_sorted_iff)
  then have "inj_on row_id (set tbl)"
    by (simp add: distinct_map)
  then show ?thesis
    using assms(2) by (auto dest: inj_onD)
qed

lemma ledger_inv_sync: "ledger_inv w \<Longrightarrow> ledger_inv (sync_to_mysql out w)"
proof -
  assume inv: "ledger_inv w"
  obtain e pending ids where up:
    "upload out (select_unsynced (local_attendance w)) ([], []) = (e, pending, ids)"
    by (metis prod_cases3)
  have "map row_id (local_attendance (sync_to_mysql out w)) = map row_id (local_attendance w) \<and>
        sqlite_sequence (sync_to_mysql out w) = sqlite_sequence w"
    using up
    by (cases e) (simp_all add: sync_to_mysql_def Let_def log_event_def map_row_id_executemany)
  then have "map row_id (local_attendance (sync_to_mysql out w)) = map row_id (local_attendance w)"
    and "sqlite_sequence (sync_to_mysql out w) = sqlite_sequence w"
    by simp_all
  moreover have "list_all (\<lambda>r. row_id r \<le> n) tbl \<longleftrightarrow> list_all (\<lambda>i. i \<le> n) (map row_id tbl)"
    for n and tbl :: "attendance list"
    by (simp add: list_all_iff)
  ultimately show ?thesis
    using inv by (simp add: ledger_inv_def)
qed

lemma sync_update_after_commit:
  "\<exists>evs. events (sync_to_mysql out w) = events w @ evs \<and>
     (\<forall>ids. SqliteUpdate ids \<in> set evs \<longrightarrow>
        (\<exists>before. evs = before @ [SqliteUpdate ids] \<and> MysqlCommit \<in> set before)) \<and>
     (local_attendance (sync_to_mysql out w) \<noteq> local_attendance w \<longrightarrow>
        (\<exists>ids. SqliteUpdate ids \<in> set evs))"
proof -
  obtain e pending ids where up:
    "upload out (select_unsynced (local_attendance w)) ([], []) = (e, pending, ids)"
    by (metis prod_cases3)
  have notin: "SqliteUpdate i \<notin> MysqlExecute ` set pending" for i
    by auto
  consider
      (same) evs where "sync_to_mysql out w = log_event evs w"
        "\<forall>i. SqliteUpdate i \<notin> set evs"
    | (committed) evs where "sync_to_mysql out w =
          log_event evs (w\<lparr>attendance_log := attendance_log w @ pending\<rparr>)"
        "\<forall>i. SqliteUpdate i \<notin> set evs"
    | (marked) before tbl where "sync_to_mysql out w =
          log_event (before @ [SqliteUpdate ids])
            (w\<lparr>attendance_log := attendance_log w @ pending, local_attendance := tbl\<rparr>)"
        "MysqlCommit \<in> set before" "\<forall>i. SqliteUpdate i \<notin> set before"
  proof (cases "sqlite_select_ok out")
    case False
    then have "sync_to_mysql out w = log_event [] w"
      by (simp add: sync_to_mysql_def log_event_def)
    then show ?thesis using same[of "[]"] by simp
  next
    case rd: True
    show ?thesis
    proof (cases "select_unsynced (local_attendance w) = []")
      case True
      with rd have "sync_to_mysql out w = log_event [SqliteSelect] w"
        by (simp add: sync_to_mysql_def)
      then show ?thesis using same[of "[SqliteSelect]"] by simp
    next
      case ne: False
      show ?thesis
      proof (cases "mysql_connect_ok out")
        case False
        with rd ne have "sync_to_mysql out w = log_event [SqliteSelect, MysqlConnect] w"
          by (simp add: sync_to_mysql_def log_event_def)
        then show ?thesis using same[of "[SqliteSelect, MysqlConnect]"] by simp
      next
        case on: True
        show ?thesis
        proof (cases "e = None \<and> mysql_commit_ok out")
          case False
          with rd ne on up have "sync_to_mysql out w =
              log_event ([SqliteSelect, MysqlConnect] @ map MysqlExecute pending @ [MysqlClose]) w"
            by (cases e) (auto simp: sync_to_mysql_def log_event_def)
          then show ?thesis
            using same[of "[SqliteSelect, MysqlConnect] @ map MysqlExecute pending @ [MysqlClose]"]
              notin by auto
        next
          case cm: True
          show ?thesis
          proof (cases "ids \<noteq> [] \<and> sqlite_update_ok out")
            case True
            with rd ne on up cm have "sync_to_mysql out w =
              log_event (([SqliteSelect, MysqlConnect] @ map MysqlExecute pending @
                          [MysqlCommit, MysqlClose]) @ [SqliteUpdate ids])
                (w\<lparr>attendance_log := attendance_log w @ pending,
                   local_attendance := executemany_update ids (local_attendance w)\<rparr>)"
              by (auto simp: sync_to_mysql_def log_event_def Let_def)
            then show ?thesis
              using notin
              by (intro marked[of "[SqliteSelect, MysqlConnect] @ map MysqlExecute pending @
                          [MysqlCommit, MysqlClose]"]) auto
          next
            case False
            with rd ne on up cm have "\<exists>tl. sync_to_mysql out w =
              log_event ([SqliteSelect, MysqlConnect] @ map MysqlExecute pending @
                          [MysqlCommit, MysqlClose] @ tl)
                (w\<lparr>attendance_log := attendance_log w @ pending\<rparr>) \<and>
                (tl = [] \<or> tl = [MysqlClose])"
              by (auto simp: sync_to_mysql_def log_event_def Let_def)
            then obtain tl where tl: "sync_to_mysql out w =
              log_event ([SqliteSelect, MysqlConnect] @ map MysqlExecute pending @
                          [MysqlCommit, MysqlClose] @ tl)
                (w\<lparr>attendance_log := attendance_log w @ pending\<rparr>)"
              "tl = [] \<or> tl = [MysqlClose]" by blast
            show ?thesis
              using tl(2) notin
              by (intro committed[OF tl(1)]) auto
          qed
        qed
      qed
    qed
  qed
  then show ?thesis
  proof cases
    case (same evs)
    then show ?thesis
      by (intro exI[of _ evs]) (simp add: log_event_def)
  next
    case (committed evs)
    then show ?thesis
      by (intro exI[of _ evs]) (simp add: log_event_def)
  next
    case (marked before tbl)
    show ?thesis
    proof (rule exI[of _ "before @ [SqliteUpdate ids]"], intro conjI allI impI)
      show "events (sync_to_mysql out w) = events w @ before @ [SqliteUpdate ids]"
        using marked(1) by (simp add: log_event_def)
    next
      fix i assume "SqliteUpdate i \<in> set (before @ [SqliteUpdate ids])"
      with marked(3) have "i = ids" by auto
      with marked(2) show "\<exists>b. before @ [SqliteUpdate ids] = b @ [SqliteUpdate i] \<and> MysqlCommit \<in> set b"
        by auto
    next
      show "\<exists>i. SqliteUpdate i \<in> set (before @ [SqliteUpdate ids])" by auto
    qed
  qed
qed

text \<open>
  Claim C3. For every device id and subject name, when the local insert succeeds
  \<^verbatim>\<open>log_attendance\<close> returns True and appends exactly one record, with the current
  timestamp and \<^verbatim>\<open>synced = 0\<close>, to the local table. The central table is untouched, the
  only store call made is the local INSERT, and the result does not depend on whether
  the central store can be reached, executes or commits.
\<close>

theorem log_attendance_local_only:
  assumes "sqlite_insert_ok out"
  shows "log_attendance out dev nm w =
           (True,
            w\<lparr>local_attendance := local_attendance w @
                 [\<lparr>row_id = Suc (sqlite_sequence w), row_timestamp = time_now out,
                   row_device_id = dev, row_name = nm, row_synced = 0\<rparr>],
              sqlite_sequence := Suc (sqlite_sequence w),
              events := events w @ [SqliteInsert]\<rparr>) \<and>
         attendance_log (snd (log_attendance out dev nm w)) = attendance_log w \<and>
         log_attendance
           (out\<lparr>mysql_connect_ok := reach, mysql_execute_ok := ex, mysql_commit_ok := cm\<rparr>)
           dev nm w = log_attendance out dev nm w"
  using assms by (simp add: log_attendance_def)

text \<open>
  The same at a concrete input: Alice is logged on an empty ledger while the central store is
  unreachable.
\<close>

theorem log_attendance_local_only_witness:
  "sqlite_insert_ok offline \<and> \<not> mysql_connect_ok offline \<and>
   log_attendance offline ''device-A'' ''Alice'' init_sqlite =
     (True,
      \<lparr>local_attendance =
         [\<lparr>row_id = 1, row_timestamp = 1000, row_device_id = ''device-A'',
           row_name = ''Alice'', row_synced = 0\<rparr>],
       sqlite_sequence = 1, attendance_log = [], events = [SqliteInsert]\<rparr>)"
  using log_attendance_local_only [of offline "''device-A''" "''Alice''" init_sqlite]
  by (simp add: offline_def init_sqlite_def)

text \<open>
  Claim C4. For every ledger state, if the connection to the central store cannot be
  made, \<^verbatim>\<open>sync_to_mysql\<close> leaves the local table (every \<^verbatim>\<open>synced\<close> flag included) and
  the central table as they were: no central INSERT is executed and nothing is
  committed.
\<close>

theorem sync_unreachable_no_change:
  assumes "\<not> mysql_connect_ok out"
  shows "local_attendance (sync_to_mysql out w) = local_attendance w \<and>
         sqlite_sequence (sync_to_mysql out w) = sqlite_sequence w \<and>
         attendance_log (sync_to_mysql out w) = attendance_log w \<and>
         (\<exists>evs. events (sync_to_mysql out w) = events w @ evs \<and> executed evs = [] \<and>
                MysqlCommit \<notin> set evs)"
proof -
  have "sync_to_mysql out w = w \<or> sync_to_mysql out w = log_event [SqliteSelect] w \<or>
        sync_to_mysql out w = log_event [SqliteSelect, MysqlConnect] w"
    using assms by (simp add: sync_to_mysql_def Let_def log_event_def)
  then show ?thesis
    by (elim disjE) (simp_all add: log_event_def)
qed

text \<open>
  The same at a concrete input: two unsynced records, central store unreachable.
\<close>

theorem sync_unreachable_no_change_witness:
  "\<not> mysql_connect_ok offline \<and>
   local_attendance (sync_to_mysql offline alice_bob) = local_attendance alice_bob \<and>
   map row_synced (local_attendance (sync_to_mysql offline alice_bob)) = [0, 0] \<and>
   attendance_log (sync_to_mysql offline alice_bob) = []"
  using sync_unreachable_no_change [of offline alice_bob]
  by (simp add: offline_def alice_bob_def init_sqlite_def log_attendance_def)

text \<open>
  Claim C5. On every invocation whose local read succeeds, the batch
  \<^verbatim>\<open>sync_to_mysql\<close> reads holds at most 50 records (exactly \<open>min 50\<close> of the number of
  unsynced ones), all unsynced, in ascending id order, and every unsynced record left
  out has a larger id than every record of the batch (oldest first). The central INSERTs
  executed are those of a prefix of the batch, in batch order; when the connection, every
  insert and the commit succeed, the central table grows by the rows of the whole batch
  in that order.
\<close>

theorem sync_batch_oldest_first:
  assumes inv: "ledger_inv w" and rd: "sqlite_select_ok out"
  shows "\<exists>batch k evs.
     batch = select_unsynced (local_attendance w) \<and>
     length batch = min 50 (length (filter (\<lambda>r. row_synced r = 0) (local_attendance w))) \<and>
     list_all (\<lambda>r. row_synced r = 0) batch \<and>
     set batch \<subseteq> set (local_attendance w) \<and>
     sorted_wrt (<) (map row_id batch) \<and>
     (\<forall>r\<in>set (local_attendance w). row_synced r = 0 \<and> r \<notin> set batch \<longrightarrow>
        (\<forall>b\<in>set batch. row_id b < row_id r)) \<and>
     events (sync_to_mysql out w) = events w @ evs \<and>
     k \<le> length batch \<and>
     map Some (executed evs) = map (formatted out) (take k batch) \<and>
     (attendance_log (sync_to_mysql out w) = attendance_log w \<or>
      attendance_log (sync_to_mysql out w) = attendance_log w @ executed evs \<and>
      k = length batch) \<and>
     (mysql_connect_ok out \<and> mysql_commit_ok out \<and> list_all (insert_succeeds out) batch \<longrightarrow>
      attendance_log (sync_to_mysql out w) = attendance_log w @ executed evs \<and>
      k = length batch)"
proof -
  have srt: "sorted_wrt (<) (map row_id (local_attendance w))"
    using inv by (simp add: ledger_inv_def)
  from sync_events_executed[OF rd, of w] obtain k evs where
    ev: "events (sync_to_mysql out w) = events w @ evs"
      "k \<le> length (select_unsynced (local_attendance w))"
      "map Some (executed evs) =
         map (formatted out) (take k (select_unsynced (local_attendance w)))"
      "attendance_log (sync_to_mysql out w) = attendance_log w \<or>
       attendance_log (sync_to_mysql out w) = attendance_log w @ executed evs \<and>
       k = length (select_unsynced (local_attendance w))"
      "mysql_connect_ok out \<and> mysql_commit_ok out \<and>
       list_all (insert_succeeds out) (select_unsynced (local_attendance w)) \<longrightarrow>
       attendance_log (sync_to_mysql out w) = attendance_log w @ executed evs \<and>
       k = length (select_unsynced (local_attendance w))"
    by blast
  show ?thesis
    apply (rule exI[of _ "select_unsynced (local_attendance w)"])
    apply (rule exI[of _ k])
    apply (rule exI[of _ evs])
    apply (intro conjI)
              apply (rule refl)
             apply (rule select_unsynced_props(2)[OF srt])
            apply (rule select_unsynced_props(3)[OF srt])
           apply (rule select_unsynced_props(4)[OF srt])
          apply (rule select_unsynced_props(5)[OF srt])
         apply (rule select_unsynced_props(6)[OF srt])
        apply (rule ev(1))
       apply (rule ev(2))
      apply (rule ev(3))
     apply (rule ev(4))
    apply (rule ev(5))
    done
qed

text \<open>
  The same at a concrete input: Alice then Bob logged offline, one sync once online.
\<close>

theorem sync_batch_oldest_first_witness:
  "ledger_inv alice_bob \<and> sqlite_select_ok online \<and>
   map row_name (select_unsynced (local_attendance alice_bob)) = [''Alice'', ''Bob''] \<and>
   map row_id (select_unsynced (local_attendance alice_bob)) = [1, 2] \<and>
   map log_name (attendance_log (sync_to_mysql online alice_bob)) = [''Alice'', ''Bob'']"
proof -
  have inv: "ledger_inv alice_bob"
    by (simp add: ledger_inv_def alice_bob_def init_sqlite_def log_attendance_def offline_def)
  have rd: "sqlite_select_ok online"
    by (simp add: online_def offline_def)
  have sel: "map row_name (select_unsynced (local_attendance alice_bob)) = [''Alice'', ''Bob'']"
    "map row_id (select_unsynced (local_attendance alice_bob)) = [1, 2]"
    by (simp_all add: alice_bob_def init_sqlite_def log_attendance_def offline_def
        select_unsynced_def)
  have ok: "mysql_connect_ok online \<and> mysql_commit_ok online \<and>
      list_all (insert_succeeds online) (select_unsynced (local_attendance alice_bob))"
    by (simp add: alice_bob_def init_sqlite_def log_attendance_def offline_def online_def
        select_unsynced_def insert_succeeds_def formatted_def)
  from sync_batch_oldest_first [OF inv rd] ok obtain evs where
    "map Some (executed evs) =
       map (formatted online) (select_unsynced (local_attendance alice_bob))"
    "attendance_log (sync_to_mysql online alice_bob) = attendance_log alice_bob @ executed evs"
    by auto
  then have "map log_name (attendance_log (sync_to_mysql online alice_bob)) = [''Alice'', ''Bob'']"
    by (auto simp: alice_bob_def init_sqlite_def log_attendance_def offline_def online_def
        select_unsynced_def formatted_def mysql_row_of_def)
  with inv rd sel show ?thesis by simp
qed

text \<open>
  Claim C6. With \<open>N \<le> 50\<close> unsynced records, a reachable central store and every
  central insert, the commit and the local update succeeding, one call of
  \<^verbatim>\<open>sync_to_mysql\<close> adds exactly \<open>N\<close> rows to the central table (the rows of the unsynced
  records, in order), sets \<^verbatim>\<open>synced = 1\<close> on exactly the \<open>N\<close> records that were unsynced
  and changes no other record, and the local UPDATE is the last call, after the central
  commit.
\<close>

theorem sync_marks_after_commit:
  assumes inv: "ledger_inv w"
    and ok: "sqlite_select_ok out" "mysql_connect_ok out" "mysql_commit_ok out"
      "sqlite_update_ok out"
    and ins: "list_all (insert_succeeds out) (filter (\<lambda>r. row_synced r = 0) (local_attendance w))"
    and N: "length (filter (\<lambda>r. row_synced r = 0) (local_attendance w)) = N" "N \<le> 50"
  shows "\<exists>rows.
     length rows = N \<and>
     map Some rows = map (formatted out) (filter (\<lambda>r. row_synced r = 0) (local_attendance w)) \<and>
     attendance_log (sync_to_mysql out w) = attendance_log w @ rows \<and>
     local_attendance (sync_to_mysql out w) =
       map (\<lambda>r. if row_synced r = 0 then r\<lparr>row_synced := 1\<rparr> else r) (local_attendance w) \<and>
     length (filter (\<lambda>r. row_synced r = 1) (local_attendance (sync_to_mysql out w))) =
       length (filter (\<lambda>r. row_synced r = 1) (local_attendance w)) + N \<and>
     events (sync_to_mysql out w) = events w @
       (if N = 0 then [SqliteSelect]
        else [SqliteSelect, MysqlConnect] @ map MysqlExecute rows @
             [MysqlCommit, MysqlClose,
              SqliteUpdate (map row_id (filter (\<lambda>r. row_synced r = 0) (local_attendance w)))])"
proof -
  let ?tbl = "local_attendance w"
  let ?xs = "filter (\<lambda>r. row_synced r = 0) ?tbl"
  let ?mark = "\<lambda>r. if row_synced r = 0 then r\<lparr>row_synced := 1\<rparr> else r"
  have batch: "select_unsynced ?tbl = ?xs"
    using N by (simp add: select_unsynced_def)
  from upload_all[OF ins, of "[]" "[]"] obtain rows where
    up: "upload out ?xs ([], []) = (None, rows, map row_id ?xs)"
    and rows: "map Some rows = map (formatted out) ?xs"
    by auto
  from rows have len: "length rows = N"
    using N(1) by (metis length_map)
  have srt: "sorted_wrt (<) (map row_id ?tbl)"
    using inv by (simp add: ledger_inv_def)
  have mark: "executemany_update (map row_id ?xs) ?tbl = map ?mark ?tbl"
    unfolding executemany_update_eq
    by (rule map_cong) (simp_all add: ids_of_unsynced[OF srt])
  show ?thesis
  proof (cases "N = 0")
    case True
    then have "?xs = []" using N(1) by simp
    then have none: "\<forall>r\<in>set ?tbl. row_synced r \<noteq> 0"
      by (simp add: filter_empty_conv)
    then have same: "map ?mark ?tbl = ?tbl"
      by (simp add: map_idI)
    have "sync_to_mysql out w = log_event [SqliteSelect] w"
      using ok batch \<open>?xs = []\<close> by (simp add: sync_to_mysql_def)
    then show ?thesis
      using True rows \<open>?xs = []\<close> same
      by (intro exI[of _ "[]"]) (simp add: log_event_def)
  next
    case False
    then have ne: "?xs \<noteq> []" using N(1) by auto
    have "sync_to_mysql out w =
        log_event [SqliteUpdate (map row_id ?xs)]
          ((log_event ([MysqlConnect] @ map MysqlExecute rows @ [MysqlCommit, MysqlClose])
             ((log_event [SqliteSelect] w)\<lparr>attendance_log := attendance_log w @ rows\<rparr>))
           \<lparr>local_attendance := executemany_update (map row_id ?xs) ?tbl\<rparr>)"
      using ok batch ne up by (simp add: sync_to_mysql_def log_event_def Let_def)
    then have res: "sync_to_mysql out w =
        w\<lparr>attendance_log := attendance_log w @ rows,
          local_attendance := map ?mark ?tbl,
          events := events w @ [SqliteSelect, MysqlConnect] @ map MysqlExecute rows @
            [MysqlCommit, MysqlClose, SqliteUpdate (map row_id ?xs)]\<rparr>"
      by (simp add: log_event_def mark)
    have cnt: "length (filter (\<lambda>r. row_synced r = 1) (local_attendance (sync_to_mysql out w))) =
       length (filter (\<lambda>r. row_synced r = 1) ?tbl) + N"
      unfolding res using count_marked[of ?tbl] N(1) by simp
    show ?thesis
      using False len rows cnt
      by (intro exI[of _ rows]) (simp add: res)
  qed
qed

text \<open>
  The same at a concrete input: \<open>N = 2\<close>.
\<close>

theorem sync_marks_after_commit_witness:
  "ledger_inv alice_bob \<and> sqlite_select_ok online \<and> mysql_connect_ok online \<and>
   mysql_commit_ok online \<and> sqlite_update_ok online \<and>
   list_all (insert_succeeds online)
     (filter (\<lambda>r. row_synced r = 0) (local_attendance alice_bob)) \<and>
   length (filter (\<lambda>r. row_synced r = 0) (local_attendance alice_bob)) = 2 \<and>
   map row_synced (local_attendance (sync_to_mysql online alice_bob)) = [1, 1] \<and>
   length (attendance_log (sync_to_mysql online alice_bob)) = 2"
proof -
  have inv: "ledger_inv alice_bob"
    by (simp add: ledger_inv_def alice_bob_def init_sqlite_def log_attendance_def offline_def)
  have ok: "sqlite_select_ok online" "mysql_connect_ok online" "mysql_commit_ok online"
    "sqlite_update_ok online"
    by (simp_all add: online_def offline_def)
  have ins: "list_all (insert_succeeds online)
     (filter (\<lambda>r. row_synced r = 0) (local_attendance alice_bob))"
    by (simp add: alice_bob_def init_sqlite_def log_attendance_def offline_def online_def
        insert_succeeds_def formatted_def)
  have N: "length (filter (\<lambda>r. row_synced r = 0) (local_attendance alice_bob)) = 2"
    by (simp add: alice_bob_def init_sqlite_def log_attendance_def offline_def)
  have tbl: "map row_synced (local_attendance alice_bob) = [0, 0]"
    by (simp add: alice_bob_def init_sqlite_def log_attendance_def offline_def)
  from sync_marks_after_commit [OF inv ok ins N] obtain rows where
    r: "length rows = 2"
    "attendance_log (sync_to_mysql online alice_bob) = attendance_log alice_bob @ rows"
    "local_attendance (sync_to_mysql online alice_bob) =
       map (\<lambda>r. if row_synced r = 0 then r\<lparr>row_synced := 1\<rparr> else r) (local_attendance alice_bob)"
    by auto
  have "attendance_log alice_bob = []"
    by (simp add: alice_bob_def init_sqlite_def log_attendance_def offline_def)
  with r have "length (attendance_log (sync_to_mysql online alice_bob)) = 2" by simp
  moreover have "map row_synced (local_attendance (sync_to_mysql online alice_bob)) = [1, 1]"
    unfolding r(3)
    by (simp add: alice_bob_def init_sqlite_def log_attendance_def offline_def)
  ultimately show ?thesis using inv ok ins N by simp
qed

section \<open>Properties of the aligner and the recognizer\<close>

lemma float32_nonfinite: "\<not> isfinite v \<Longrightarrow> \<not> isfinite (float32 v)"
  by (cases v) (simp_all add: float32_def)

lemma np_array_float32_nonfinite:
  assumes "has_nonfinite lms" and "np_array_float32 lms = Inr lms32"
  shows "\<not> all_isfinite lms32"
proof -
  from assms(2) have eq: "lms32 = map (map float32) lms"
    by (auto simp: np_array_float32_def split: list.splits if_splits)
  from assms(1) obtain row v where "row \<in> set lms" "v \<in> set row" "\<not> isfinite v"
    by (auto simp: has_nonfinite_def list_ex_iff)
  then have "map float32 row \<in> set lms32" "float32 v \<in> set (map float32 row)"
    "\<not> isfinite (float32 v)"
    by (auto simp: eq float32_nonfinite)
  then have "\<exists>r\<in>set lms32. \<exists>x\<in>set r. \<not> isfinite x"
    by blast
  then show ?thesis
    by (simp add: all_isfinite_def list_all_iff)
qed

lemma align_image_too_small:
  assumes "image_too_small img"
  shows "align cv self (Some img) landmarks = None"
proof (cases "shape img")
  case Nil
  then show ?thesis
    by (simp add: align_def align_try_def shape_at_def split: option.splits)
next
  case (Cons h rest)
  note outer = Cons
  show ?thesis
  proof (cases rest)
    case Nil
    with outer show ?thesis
      by (simp add: align_def align_try_def shape_at_def split: option.splits)
  next
    case (Cons w rest')
    with outer assms have "h < 10 \<or> w < 10"
      by (auto simp: image_too_small_def)
    with outer Cons show ?thesis
      by (auto simp: align_def align_try_def shape_at_def split: option.splits)
  qed
qed

lemma align_wrong_count:
  assumes "length lms \<noteq> 5"
  shows "align cv self im (Some lms) = None"
  using assms by (simp add: align_def align_try_def split: option.splits)

lemma align_nonfinite:
  assumes "has_nonfinite lms"
  shows "align cv self im (Some lms) = None"
proof -
  have "\<And>l. np_array_float32 lms = Inr l \<Longrightarrow> \<not> all_isfinite l"
    using assms by (rule np_array_float32_nonfinite)
  then show ?thesis
    by (simp add: align_def align_try_def split: option.splits sum.splits)
qed

lemma align_image_empty:
  assumes "array_size img = 0" and "warpAffine_keeps_type cv"
  shows "align cv self (Some img) landmarks = None"
proof (cases "image_too_small img")
  case True
  then show ?thesis by (rule align_image_too_small)
next
  case False
  then obtain h w rest where sh: "shape img = h # w # rest" "10 \<le> h" "10 \<le> w"
    by (cases "shape img"; cases "tl (shape img)") (auto simp: image_too_small_def)
  with assms(1) have rest: "prod_list rest = 0"
    by (simp add: array_size_def)
  have "array_size out = 0"
    if "warpAffine cv img tform dsize = Inr (Some out)" for tform dsize out
  proof -
    from that assms(2) have "shape out = [snd dsize, fst dsize] @ drop 2 (shape img)"
      unfolding warpAffine_keeps_type_def by blast
    then show ?thesis
      using sh(1) rest by (simp add: array_size_def)
  qed
  then show ?thesis
    by (simp add: align_def align_try_def split: option.splits sum.splits)
qed

text \<open>
  Claim C2. Whatever the other argument is, \<^verbatim>\<open>align\<close> returns None (and raises nothing:
  its result is an optional image) when the image is None, has fewer than two axes or
  has one of its two spatial axes below 10 (0 included), when the landmarks are None,
  when their count is not 5, or when any landmark coordinate is non-finite. An image of
  size 0 whose spatial axes are both at least 10 (no channels) also gives None, provided
  \<^verbatim>\<open>cv2.warpAffine\<close> keeps the channels of its source as documented.
\<close>

theorem align_rejects_invalid_input:
  assumes "im = None \<or> landmarks = None \<or>
           (\<exists>img. im = Some img \<and> image_too_small img) \<or>
           (\<exists>img. im = Some img \<and> array_size img = 0 \<and> warpAffine_keeps_type cv) \<or>
           (\<exists>lms. landmarks = Some lms \<and> (length lms \<noteq> 5 \<or> has_nonfinite lms))"
  shows "align cv self im landmarks = None"
  using assms
proof (elim disjE exE conjE)
  fix img assume "im = Some img" "array_size img = 0" "warpAffine_keeps_type cv"
  then show ?thesis by (simp add: align_image_empty)
next
  assume "im = None"
  then show ?thesis by (simp add: align_def align_try_def)
next
  assume "landmarks = None"
  then show ?thesis by (simp add: align_def align_try_def split: option.splits)
next
  fix img assume "im = Some img" "image_too_small img"
  then show ?thesis by (simp add: align_image_too_small)
next
  fix lms assume "landmarks = Some lms" "length lms \<noteq> 5"
  then show ?thesis by (simp add: align_wrong_count)
next
  fix lms assume "landmarks = Some lms" "has_nonfinite lms"
  then show ?thesis by (simp add: align_nonfinite)
qed

text \<open>
  The same at concrete inputs: a NaN landmark, a 9-row image, an image without
  channels, and a valid call.
\<close>

theorem align_rejects_invalid_input_witness:
  "has_nonfinite (landmarks_ok[2 := [NaN, Finite 72]]) \<and>
   align cv_identity aligner (Some frame_200) (Some (landmarks_ok[2 := [NaN, Finite 72]])) = None \<and>
   image_too_small \<lparr>shape = [9, 200, 3], buf = []\<rparr> \<and>
   align cv_identity aligner (Some \<lparr>shape = [9, 200, 3], buf = []\<rparr>) (Some landmarks_ok) = None \<and>
   warpAffine_keeps_type cv_identity \<and>
   align cv_identity aligner (Some \<lparr>shape = [200, 200, 0], buf = []\<rparr>) (Some landmarks_ok) = None \<and>
   align cv_identity aligner (Some frame_200) (Some landmarks_ok) =
     Some \<lparr>shape = [112, 112, 3], buf = []\<rparr>"
proof -
  have 1: "has_nonfinite (landmarks_ok[2 := [NaN, Finite 72]])"
    by (simp add: has_nonfinite_def landmarks_ok_def)
  have 2: "image_too_small \<lparr>shape = [9, 200, 3], buf = []\<rparr>"
    by (simp add: image_too_small_def)
  have 3: "align cv_identity aligner (Some frame_200) (Some landmarks_ok) =
     Some \<lparr>shape = [112, 112, 3], buf = []\<rparr>"
    by (simp add: align_def align_try_def shape_at_def frame_200_def landmarks_ok_def
        np_array_float32_def float32_def all_isfinite_def cv_identity_def aligner_def
        array_size_def)
  have 4: "warpAffine_keeps_type cv_identity"
    by (simp add: warpAffine_keeps_type_def cv_identity_def)
  have 5: "array_size \<lparr>shape = [200, 200, 0], buf = ([] :: nat list)\<rparr> = 0"
    by (simp add: array_size_def)
  show ?thesis
    using 1 2 3 4 5
      align_rejects_invalid_input [of "Some \<lparr>shape = [200, 200, 0], buf = []\<rparr>"
        "Some landmarks_ok" cv_identity aligner]
      align_rejects_invalid_input [of "Some frame_200"
        "Some (landmarks_ok[2 := [NaN, Finite 72]])" cv_identity aligner]
      align_rejects_invalid_input [of "Some \<lparr>shape = [9, 200, 3], buf = []\<rparr>"
        "Some landmarks_ok" cv_identity aligner]
    by simp
qed





lemma reload_models: "detector (snd (reload a self)) = detector self \<and>
    recognizer (snd (reload a self)) = recognizer self"
  by (simp add: reload_def split: sum.splits)

lemma reloads_models: "detector (reloads as self) = detector self \<and>
    recognizer (reloads as self) = recognizer self"
  unfolding reloads_def
  by (induction as arbitrary: self) (simp_all add: reload_models)

lemma recognize_faces_no_models:
  assumes "detector self = None \<or> recognizer self = None"
  shows "recognize_faces cv al self frame = ([], [])"
  using assms by (auto simp: recognize_faces_def split: option.splits)

text \<open>
  Claim C7. When the detector file or the embedder file is missing at startup, the
  constructor returns normally and, for every later frame (after any number of
  reloads), \<^verbatim>\<open>recognize_faces\<close> returns two empty lists: processing completes and no
  reported face carries a name other than "Unknown".
\<close>

theorem missing_models_no_faces:
  assumes "\<not> yunet_exists a \<or> \<not> mobilefacenet_exists a"
  shows "\<exists>self. FaceRecognizer_init a = Inr self \<and>
      (\<forall>as cv al frame.
         recognize_faces cv al (reloads as self) frame = ([], []) \<and>
         list_all (\<lambda>name. name = ''Unknown'')
           (snd (recognize_faces cv al (reloads as self) frame)))"
proof -
  let ?s0 = "\<lparr>detector = None, recognizer = None, known_embeddings = [], known_names = []\<rparr>"
  have lm: "load_models a ?s0 = Inr ?s0"
    using assms by (auto simp: load_models_def)
  then have init: "FaceRecognizer_init a = Inr (load_database a ?s0)"
    by (simp add: FaceRecognizer_init_def)
  have none: "detector (load_database a ?s0) = None"
    by (simp add: load_database_def split: sum.splits)
  have "\<And>as cv al frame.
      recognize_faces cv al (reloads as (load_database a ?s0)) frame = ([], [])"
    by (rule recognize_faces_no_models) (simp add: reloads_models none)
  then show ?thesis
    using init by simp
qed

text \<open>
  The same at a concrete input: the detector file is missing.
\<close>

theorem missing_models_no_faces_witness:
  "\<not> yunet_exists no_models \<and>
   (\<exists>self. FaceRecognizer_init no_models = Inr self \<and>
      recognize_faces cv_identity (Some aligner) self (Some frame_200) = ([], []))"
proof -
  have h: "\<not> yunet_exists no_models \<or> \<not> mobilefacenet_exists no_models"
    by (simp add: no_models_def)
  from missing_models_no_faces [OF h] obtain self where
    s: "FaceRecognizer_init no_models = Inr self"
    "\<forall>as cv al frame. recognize_faces cv al (reloads as self) frame = ([], []) \<and>
         list_all (\<lambda>name. name = ''Unknown'')
           (snd (recognize_faces cv al (reloads as self) frame))"
    by blast
  from s(2) have "recognize_faces cv_identity (Some aligner) (reloads [] self) (Some frame_200) = ([], [])"
    by blast
  then have "recognize_faces cv_identity (Some aligner) self (Some frame_200) = ([], [])"
    by (simp add: reloads_def)
  moreover have "\<not> yunet_exists no_models"
    by (simp add: no_models_def)
  ultimately show ?thesis using s(1) by blast
qed



lemma threads_const [simp]:
  "threads (\<lambda>names. (Raise e, names))"
  "threads (\<lambda>names. (Fallthrough n, names))"
  "threads (\<lambda>names. (Continue, names @ [''Unknown'']))"
  by (simp_all add: threads_def)







lemma embedding_match_name:
  assumes "length embedding \<noteq> 0" and "normalize cv embedding = Inr embedding_norm"
  shows "\<exists>fl. embedding_match cv self embedding names = (fl, names) \<and>
           (case fl of
              Fallthrough name \<Rightarrow> name = match_name self embedding_norm
            | Raise e \<Rightarrow> match_name self embedding_norm = ''Unknown''
            | Continue \<Rightarrow> False)"
  using assms
  by (cases "compare_with_known self embedding_norm")
     (simp_all add: embedding_match_def match_name_def)


















end
